theory Spec2Isabelle
  imports Main "HOL-Library.List_Lexorder"
begin

section \<open>Text, character classes and Python dictionaries\<close>

text \<open>
  A Python \<open>str\<close> is a sequence of Unicode code points; a code point is a natural number.
  Python compares and sorts strings lexicographically by code point, which is the order
  of \<open>nat list\<close> here. \<open>str\<close> turns a literal into such a sequence.
\<close>

type_synonym pystr = "nat list"

definition str :: "string \<Rightarrow> pystr" where
  "str s = map (of_char :: char \<Rightarrow> nat) s"

text \<open>
  \<open>is_space\<close> is the class \<open>\s\<close> of a \<open>str\<close> pattern and the characters removed by
  \<open>str.strip()\<close>: both are CPython's table of Unicode whitespace.
\<close>

definition is_space :: "nat \<Rightarrow> bool" where
  "is_space c \<longleftrightarrow>
     (0x09 \<le> c \<and> c \<le> 0x0D) \<or> (0x1C \<le> c \<and> c \<le> 0x20) \<or> c = 0x85 \<or> c = 0xA0 \<or>
     c = 0x1680 \<or> (0x2000 \<le> c \<and> c \<le> 0x200A) \<or> c = 0x2028 \<or> c = 0x2029 \<or>
     c = 0x202F \<or> c = 0x205F \<or> c = 0x3000"

text \<open>The class \<open>[,.:;?_!"()\']\<close> of the splitting pattern (\<open>0x22\<close> is \<open>"\<close>, \<open>0x27\<close> is \<open>'\<close>).\<close>

definition split_punct :: "nat \<Rightarrow> bool" where
  "split_punct c \<longleftrightarrow> c \<in> set (str '',.:;?_!()'') \<or> c = 0x22 \<or> c = 0x27"

text \<open>The class \<open>[,.?!"()\']\<close> of \<open>SimpleTokenizerV1.decode\<close>.\<close>

definition join_punct_V1 :: "nat \<Rightarrow> bool" where
  "join_punct_V1 c \<longleftrightarrow> c \<in> set (str '',.?!()'') \<or> c = 0x22 \<or> c = 0x27"

text \<open>The class \<open>[,.:;?!"()\']\<close> of \<open>SimpleTokenizerV2.decode\<close>.\<close>

definition join_punct_V2 :: "nat \<Rightarrow> bool" where
  "join_punct_V2 c \<longleftrightarrow> c \<in> set (str '',.:;?!()'') \<or> c = 0x22 \<or> c = 0x27"

definition hyphen :: nat where
  "hyphen = 0x2D"

text \<open>
  A Python \<open>dict\<close> keeps its keys in insertion order; storing under a key that is present
  replaces the value in place. It is an association list with distinct keys.
\<close>

type_synonym ('k, 'v) dict = "('k \<times> 'v) list"

fun dict_set :: "'k \<Rightarrow> 'v \<Rightarrow> ('k, 'v) dict \<Rightarrow> ('k, 'v) dict" where
  "dict_set k v [] = [(k, v)]"
| "dict_set k v ((k', v') # d) = (if k' = k then (k, v) # d else (k', v') # dict_set k v d)"

text \<open>The comprehension \<open>{k: v for k, v in pairs}\<close>.\<close>

definition dict_comp :: "('k \<times> 'v) list \<Rightarrow> ('k, 'v) dict" where
  "dict_comp pairs = fold (\<lambda>(k, v) d. dict_set k v d) pairs []"

datatype 'k error = KeyError 'k

text \<open>\<open>[d[k] for k in ks]\<close>: the first missing key raises.\<close>

fun getitems :: "('k, 'v) dict \<Rightarrow> 'k list \<Rightarrow> 'k error + 'v list" where
  "getitems d [] = Inr []"
| "getitems d (k # ks) =
     (case map_of d k of
        None \<Rightarrow> Inl (KeyError k)
      | Some v \<Rightarrow> (case getitems d ks of Inl e \<Rightarrow> Inl e | Inr vs \<Rightarrow> Inr (v # vs)))"

section \<open>The pre-tokenizer\<close>

text \<open>
  \<open>re.split(r'([,.:;?_!"()\']|--|\s)', text)\<close>: the pieces between the matches, with
  every match (the pattern is one capture group) between its neighbours. The regex
  takes the leftmost match; its three alternatives exclude one another.
\<close>

fun re_split :: "pystr \<Rightarrow> pystr list" where
  "re_split [] = [[]]"
| "re_split [c] = (if split_punct c \<or> is_space c then [[], [c], []] else [[c]])"
| "re_split (c # d # cs) =
     (if split_punct c then [] # [c] # re_split (d # cs)
      else if c = hyphen \<and> d = hyphen then [] # [c, d] # re_split cs
      else if is_space c then [] # [c] # re_split (d # cs)
      else (case re_split (d # cs) of [] \<Rightarrow> [[c]] | p # ps \<Rightarrow> (c # p) # ps))"

definition strip :: "pystr \<Rightarrow> pystr" where
  "strip s = rev (dropWhile is_space (rev (dropWhile is_space s)))"

text \<open>\<open>[item.strip() for item in re.split(..., text) if item.strip()]\<close>\<close>

definition preprocessed :: "pystr \<Rightarrow> pystr list" where
  "preprocessed text = map strip (filter (\<lambda>item. strip item \<noteq> []) (re_split text))"

section \<open>Vocabularies\<close>

definition endoftext :: pystr where
  "endoftext = str ''<|endoftext|>''"

definition unk :: pystr where
  "unk = str ''<|unk|>''"

text \<open>\<open>{token: integer for integer, token in enumerate(tokens)}\<close>\<close>

definition enumerate_vocab :: "pystr list \<Rightarrow> (pystr, int) dict" where
  "enumerate_vocab tokens = dict_comp (map (\<lambda>(integer, token). (token, int integer)) (enumerate 0 tokens))"

text \<open>
  \<open>set(preprocessed)\<close> is iterated in an order that Python does not fix; \<open>sorted\<close>
  receives the members in that order. The members are passed as a list here, and
  \<open>remdups\<close> is one such order.
\<close>

definition all_words_of :: "pystr list \<Rightarrow> pystr list" where
  "all_words_of members = sort members"

definition all_tokens_of :: "pystr list \<Rightarrow> pystr list" where
  "all_tokens_of members = sort members @ [endoftext, unk]"

definition all_words :: "pystr \<Rightarrow> pystr list" where
  "all_words raw_text = all_words_of (remdups (preprocessed raw_text))"

definition all_tokens :: "pystr \<Rightarrow> pystr list" where
  "all_tokens raw_text = all_tokens_of (remdups (preprocessed raw_text))"

definition vocab_V1 :: "pystr \<Rightarrow> (pystr, int) dict" where
  "vocab_V1 raw_text = enumerate_vocab (all_words raw_text)"

definition vocab_V2 :: "pystr \<Rightarrow> (pystr, int) dict" where
  "vocab_V2 raw_text = enumerate_vocab (all_tokens raw_text)"

section \<open>The tokenizers\<close>

record tokenizer =
  str_to_int :: "(pystr, int) dict"
  int_to_str :: "(int, pystr) dict"

text \<open>\<open>__init__\<close> is the same in both classes.\<close>

definition init :: "(pystr, int) dict \<Rightarrow> tokenizer" where
  "init vocab = \<lparr>str_to_int = vocab, int_to_str = dict_comp (map (\<lambda>(s, i). (i, s)) vocab)\<rparr>"

text \<open>\<open>" ".join(items)\<close>\<close>

fun join :: "pystr \<Rightarrow> pystr list \<Rightarrow> pystr" where
  "join sep [] = []"
| "join sep [x] = x"
| "join sep (x # y # ys) = x @ sep @ join sep (y # ys)"

text \<open>
  \<open>re.sub(r'\s+([...])', r'\1', text)\<close> for a character class \<open>cls\<close>: where a run of
  whitespace is followed by a character of the class, the run is deleted. \<open>\s+\<close> is
  greedy, and a shorter run is followed by whitespace, so there is a match at a
  whitespace character exactly when the character after the whole run is in the class.
\<close>

function re_sub :: "(nat \<Rightarrow> bool) \<Rightarrow> pystr \<Rightarrow> pystr" where
  "re_sub cls [] = []"
| "re_sub cls (c # cs) =
     (if is_space c then
        (case dropWhile is_space cs of
           [] \<Rightarrow> c # re_sub cls cs
         | d # ds \<Rightarrow> if cls d then d # re_sub cls ds else c # re_sub cls cs)
      else c # re_sub cls cs)"
  by pat_completeness auto
termination
proof (relation "measure (\<lambda>(cls, s). length s)")
  fix cls :: "nat \<Rightarrow> bool" and c :: nat and cs :: pystr and d :: nat and ds :: pystr
  assume "dropWhile is_space cs = d # ds"
  then have "length (d # ds) \<le> length cs"
    using length_dropWhile_le [of is_space cs] by simp
  then show "((cls, ds), (cls, c # cs)) \<in> measure (\<lambda>(cls, s). length s)"
    by simp
qed simp_all

definition encode_V1 :: "tokenizer \<Rightarrow> pystr \<Rightarrow> pystr error + int list" where
  "encode_V1 self text = getitems (str_to_int self) (preprocessed text)"

definition decode_V1 :: "tokenizer \<Rightarrow> int list \<Rightarrow> int error + pystr" where
  "decode_V1 self ids =
     (case getitems (int_to_str self) ids of
        Inl e \<Rightarrow> Inl e
      | Inr items \<Rightarrow> Inr (re_sub join_punct_V1 (join (str '' '') items)))"

definition encode_V2 :: "tokenizer \<Rightarrow> pystr \<Rightarrow> pystr error + int list" where
  "encode_V2 self text =
     getitems (str_to_int self)
       (map (\<lambda>item. if map_of (str_to_int self) item \<noteq> None then item else unk)
          (preprocessed text))"

definition decode_V2 :: "tokenizer \<Rightarrow> int list \<Rightarrow> int error + pystr" where
  "decode_V2 self ids =
     (case getitems (int_to_str self) ids of
        Inl e \<Rightarrow> Inl e
      | Inr items \<Rightarrow> Inr (re_sub join_punct_V2 (join (str '' '') items)))"

section \<open>Shapes of symbols\<close>

text \<open>
  What \<open>re.split\<close> returns alternates between pieces, which hold no match of the
  pattern, and the matched delimiters. A token is what survives the filter: a non-empty
  piece, a punctuation character or the double hyphen.
\<close>

fun piece :: "pystr \<Rightarrow> bool" where
  "piece [] = True"
| "piece [c] = (\<not> split_punct c \<and> \<not> is_space c)"
| "piece (c # d # cs) =
     (\<not> split_punct c \<and> \<not> is_space c \<and> \<not> (c = hyphen \<and> d = hyphen) \<and> piece (d # cs))"

definition delim :: "pystr \<Rightarrow> bool" where
  "delim x \<longleftrightarrow> (\<exists>c. x = [c] \<and> (split_punct c \<or> is_space c)) \<or> x = [hyphen, hyphen]"

fun alternating :: "pystr list \<Rightarrow> bool" where
  "alternating [] = False"
| "alternating [p] = piece p"
| "alternating (p # d # rest) = (piece p \<and> delim d \<and> alternating rest)"

definition token :: "pystr \<Rightarrow> bool" where
  "token t \<longleftrightarrow> t \<noteq> [] \<and> (piece t \<or> (\<exists>c. t = [c] \<and> split_punct c) \<or> t = [hyphen, hyphen])"

text \<open>
  The text that decoding produces from a list of symbols: a blank before every symbol but
  the first, except before a symbol that starts with a character of the class.
\<close>

fun spaced :: "(nat \<Rightarrow> bool) \<Rightarrow> pystr list \<Rightarrow> pystr" where
  "spaced cls [] = []"
| "spaced cls [x] = x"
| "spaced cls (x # y # ys) =
     x @ (case y of [] \<Rightarrow> [0x20] | c # _ \<Rightarrow> if cls c then [] else [0x20]) @ spaced cls (y # ys)"

section \<open>The byte-pair trainer of the specification\<close>

text \<open>
  Modelled from the spec: the failure of the BPE trainer (section 4.3), which the source
  does not hold: the script only calls the external \<open>tiktoken\<close> library. Training fails with
  \<open>EmptyCorpus\<close> if the corpus yields zero atomic symbols.
\<close>

datatype train_error = EmptyCorpus

text \<open>
  Modelled from the spec: the adjacent (current symbol, next symbol) pairs of one
  sequence, for step 1 of the trainer that is missing from the source.
\<close>

definition pairs_of :: "pystr list \<Rightarrow> (pystr \<times> pystr) list" where
  "pairs_of s = zip s (tl s)"

text \<open>
  Modelled from the spec: the adjacent pairs across all sequences (step 1 of the missing
  trainer).
\<close>

definition all_pairs :: "pystr list list \<Rightarrow> (pystr \<times> pystr) list" where
  "all_pairs corpus = concat (map pairs_of corpus)"

text \<open>
  Modelled from the spec: the frequency of an adjacent pair across all sequences (step 1
  of the missing trainer).
\<close>

definition frequency :: "pystr list list \<Rightarrow> pystr \<times> pystr \<Rightarrow> nat" where
  "frequency corpus p = count_list (all_pairs corpus) p"

text \<open>
  Modelled from the spec: the choice between two pairs in step 2 of the missing trainer:
  the higher frequency wins, and ties are broken by the lexicographic order of the
  concatenated pair. Two pairs with one concatenation are told apart by their left symbol,
  which the spec leaves open.
\<close>

definition preferred :: "pystr list list \<Rightarrow> pystr \<times> pystr \<Rightarrow> pystr \<times> pystr \<Rightarrow> bool" where
  "preferred corpus p q \<longleftrightarrow>
     frequency corpus q < frequency corpus p \<or>
     (frequency corpus p = frequency corpus q \<and>
      (fst p @ snd p < fst q @ snd q \<or> (fst p @ snd p = fst q @ snd q \<and> fst p < fst q)))"

text \<open>
  Modelled from the spec: step 2 of the missing trainer, the pair of the highest
  frequency, if the corpus has a pair at all.
\<close>

definition select_pair :: "pystr list list \<Rightarrow> (pystr \<times> pystr) option" where
  "select_pair corpus =
     (case remdups (all_pairs corpus) of
        [] \<Rightarrow> None
      | p # ps \<Rightarrow> Some (fold (\<lambda>q best. if preferred corpus q best then q else best) ps p))"

text \<open>
  Modelled from the spec: step 4 of the missing trainer for one sequence: every
  occurrence of the pair is replaced by the merged symbol, non-overlapping and from left
  to right.
\<close>

fun merge_pair :: "pystr \<times> pystr \<Rightarrow> pystr list \<Rightarrow> pystr list" where
  "merge_pair (a, b) (x # y # s) =
     (if x = a \<and> y = b then (a @ b) # merge_pair (a, b) s else x # merge_pair (a, b) (y # s))"
| "merge_pair (a, b) s = s"

text \<open>
  Modelled from the spec: \<open>intern\<close> of the symbol table (section 4.1), missing from the
  source: a new ID, the next position, for an unseen symbol, the existing one otherwise.
\<close>

definition intern :: "pystr \<Rightarrow> pystr list \<Rightarrow> pystr list" where
  "intern s vocab = (if s \<in> set vocab then vocab else vocab @ [s])"

text \<open>
  Modelled from the spec: the number of symbols in the corpus of the missing trainer,
  the quantity that bounds its loop.
\<close>

definition corpus_size :: "pystr list list \<Rightarrow> nat" where
  "corpus_size corpus = sum_list (map length corpus)"

text \<open>
  Modelled from the spec: the loop of the missing trainer: repeat until the target
  vocabulary size is reached or no pair occurs more than once; record the merge rule (its
  rank is its position), add the merged symbol to the vocabulary and replace the pair in
  every sequence. Every round removes a symbol from the corpus, which is the termination
  argument.
\<close>

function train_loop ::
  "nat \<Rightarrow> pystr list \<Rightarrow> (pystr \<times> pystr) list \<Rightarrow> pystr list list \<Rightarrow>
     pystr list \<times> (pystr \<times> pystr) list \<times> pystr list list" where
  "train_loop target vocab merges corpus =
     (if target \<le> length vocab then (vocab, merges, corpus)
      else case select_pair corpus of
        None \<Rightarrow> (vocab, merges, corpus)
      | Some p \<Rightarrow>
          if frequency corpus p < 2 then (vocab, merges, corpus)
          else train_loop target (intern (fst p @ snd p) vocab) (merges @ [p])
                 (map (merge_pair p) corpus))"
  by pat_completeness auto
termination
proof (relation "measure (\<lambda>(target, vocab, merges, corpus). corpus_size corpus)")
  show "wf (measure (\<lambda>(target, vocab, merges, corpus). corpus_size corpus))"
    by simp
next
  fix target :: nat and vocab :: "pystr list" and merges :: "(pystr \<times> pystr) list"
    and corpus :: "pystr list list" and p :: "pystr \<times> pystr"
  assume often: "\<not> frequency corpus p < 2"
  have le: "length (merge_pair q s) \<le> length s" for q s
    by (induction q s rule: merge_pair.induct) auto
  have less: "q \<in> set (pairs_of s) \<Longrightarrow> length (merge_pair q s) < length s" for q s
  proof (induction q s rule: merge_pair.induct)
    case (1 a b x y s)
    show ?case
    proof (cases "x = a \<and> y = b")
      case True
      then show ?thesis
        using le [of "(a, b)" s] by simp
    next
      case False
      then have "(a, b) \<in> set (pairs_of (y # s))"
        using "1.prems" by (auto simp add: pairs_of_def)
      then have "length (merge_pair (a, b) (y # s)) < length (y # s)"
        using "1.IH"(2) False by blast
      then show ?thesis
        using False by auto
    qed
  qed (simp_all add: pairs_of_def)
  have shrink: "q \<in> set (all_pairs c) \<Longrightarrow> corpus_size (map (merge_pair q) c) < corpus_size c" for q c
  proof (induction c)
    case Nil
    then show ?case by (simp add: all_pairs_def)
  next
    case (Cons s c)
    have rest: "corpus_size (map (merge_pair q) c) \<le> corpus_size c"
      using le by (simp add: corpus_size_def sum_list_mono)
    show ?case
    proof (cases "q \<in> set (pairs_of s)")
      case True
      then show ?thesis
        using less [of q s] rest by (simp add: corpus_size_def)
    next
      case False
      then have "q \<in> set (all_pairs c)"
        using Cons.prems by (simp add: all_pairs_def)
      then show ?thesis
        using Cons.IH le [of q s] by (simp add: corpus_size_def)
    qed
  qed
  have "p \<in> set (all_pairs corpus)"
    using often by (cases "p \<in> set (all_pairs corpus)") (simp_all add: frequency_def)
  then show "((target, intern (fst p @ snd p) vocab, merges @ [p], map (merge_pair p) corpus),
      (target, vocab, merges, corpus))
    \<in> measure (\<lambda>(target, vocab, merges, corpus). corpus_size corpus)"
    using shrink by simp
qed

text \<open>
  Modelled from the spec: \<open>train(corpus, target_vocab_size, special_tokens)\<close> of section
  4.3, missing from the source: the vocabulary starts with the distinct atomic symbols in
  sorted order, and the special tokens are appended after the loop.
\<close>

definition train ::
  "pystr list list \<Rightarrow> nat \<Rightarrow> pystr list \<Rightarrow>
     train_error + (pystr list \<times> (pystr \<times> pystr) list)" where
  "train corpus target_vocab_size special_tokens =
     (if concat corpus = [] then Inl EmptyCorpus
      else case train_loop target_vocab_size (sort (remdups (concat corpus))) [] corpus of
        (vocab, merges, _) \<Rightarrow> Inr (vocab @ special_tokens, merges))"

declare train_loop.simps [simp del]

section \<open>Evaluation\<close>

text \<open>The definitions that \<open>simp\<close> unfolds to run the model on a concrete input.\<close>

lemmas ev = str_def is_space_def split_punct_def join_punct_V1_def join_punct_V2_def hyphen_def
  strip_def preprocessed_def endoftext_def unk_def enumerate_vocab_def all_words_of_def all_tokens_of_def
  all_words_def all_tokens_def vocab_V1_def vocab_V2_def init_def dict_comp_def
  encode_V1_def encode_V2_def decode_V1_def decode_V2_def

section \<open>The pre-tokenizer's output\<close>

lemma hyphen_plain: "\<not> split_punct hyphen" "\<not> is_space hyphen"
  by (simp_all add: split_punct_def is_space_def hyphen_def str_def)

lemma punct_not_space: "split_punct c \<Longrightarrow> \<not> is_space c"
  by (auto simp add: split_punct_def is_space_def str_def)

lemma re_split_not_Nil: "re_split t \<noteq> []"
  by (cases t rule: re_split.cases) (auto split: list.splits)

lemma concat_re_split: "concat (re_split t) = t"
  by (induction t rule: re_split.induct) (auto simp add: re_split_not_Nil split: list.splits)

lemma re_split_head: "re_split (d # cs) = p # ps \<Longrightarrow> p = [] \<or> hd p = d"
  by (cases cs) (auto split: if_splits list.splits)

lemma piece_Cons:
  "\<not> split_punct c \<Longrightarrow> \<not> is_space c \<Longrightarrow> piece p \<Longrightarrow> (p = [] \<or> \<not> (c = hyphen \<and> hd p = hyphen))
     \<Longrightarrow> piece (c # p)"
  by (cases p) auto

lemma alternating_re_split: "alternating (re_split t)"
proof (induction t rule: re_split.induct)
  case 1
  show ?case by simp
next
  case (2 c)
  show ?case by (simp add: delim_def)
next
  case (3 c d cs)
  show ?case
  proof (cases "split_punct c \<or> (c = hyphen \<and> d = hyphen) \<or> is_space c")
    case True
    with 3 show ?thesis by (auto simp add: delim_def)
  next
    case False
    then have ih: "alternating (re_split (d # cs))"
      using 3 by simp
    obtain p ps where split: "re_split (d # cs) = p # ps"
      using re_split_not_Nil [of "d # cs"] by (cases "re_split (d # cs)") auto
    have hd: "p = [] \<or> hd p = d"
      using re_split_head [OF split] .
    have "piece p"
      using ih split by (cases ps) auto
    then have "piece (c # p)"
      using False hd by (intro piece_Cons) auto
    then have "alternating ((c # p) # ps)"
      using ih split by (cases ps) auto
    then show ?thesis
      using False split by auto
  qed
qed

lemma piece_no_delim_char: "piece p \<Longrightarrow> c \<in> set p \<Longrightarrow> \<not> split_punct c \<and> \<not> is_space c"
  by (induction p rule: piece.induct) auto

lemma piece_re_split: "piece p \<Longrightarrow> re_split p = [p]"
  by (induction p rule: piece.induct) auto

lemma alternating_items: "alternating xs \<Longrightarrow> x \<in> set xs \<Longrightarrow> piece x \<or> delim x"
  by (induction xs rule: alternating.induct) auto

lemma strip_no_space: "\<forall>c\<in>set x. \<not> is_space c \<Longrightarrow> strip x = x"
proof -
  assume a: "\<forall>c\<in>set x. \<not> is_space c"
  then have "dropWhile is_space x = x"
    by (cases x) auto
  moreover have "dropWhile is_space (rev x) = rev x"
    using a by (cases "rev x") (auto simp add: rev_eq_Cons_iff)
  ultimately show ?thesis
    by (simp add: strip_def)
qed

lemma strip_space: "is_space c \<Longrightarrow> strip [c] = []"
  by (simp add: strip_def)

lemma token_no_space: "token t \<Longrightarrow> c \<in> set t \<Longrightarrow> \<not> is_space c"
  using piece_no_delim_char [of t c] punct_not_space hyphen_plain
  by (auto simp add: token_def)

lemma token_punct: "token t \<Longrightarrow> c \<in> set t \<Longrightarrow> split_punct c \<Longrightarrow> t = [c]"
  using piece_no_delim_char [of t c] hyphen_plain
  by (auto simp add: token_def)

lemma strip_item:
  assumes "piece x \<or> delim x"
  shows "strip x = filter (\<lambda>c. \<not> is_space c) x \<and> (strip x = [] \<or> token (strip x))"
proof -
  consider (space) c where "x = [c]" "is_space c"
    | (punct) c where "x = [c]" "split_punct c"
    | (dash) "x = [hyphen, hyphen]"
    | (piece) "piece x"
    using assms by (auto simp add: delim_def)
  then show ?thesis
  proof cases
    case space
    then show ?thesis by (simp add: strip_space)
  next
    case punct
    then have "\<forall>c\<in>set x. \<not> is_space c"
      by (simp add: punct_not_space)
    then have "strip x = x"
      by (rule strip_no_space)
    with punct show ?thesis
      by (simp add: token_def punct_not_space)
  next
    case dash
    then have "\<forall>c\<in>set x. \<not> is_space c"
      by (simp add: hyphen_plain)
    then have "strip x = x"
      by (rule strip_no_space)
    with dash show ?thesis
      by (simp add: token_def hyphen_plain)
  next
    case piece
    then have ns: "\<forall>c\<in>set x. \<not> is_space c"
      using piece_no_delim_char by blast
    then have "strip x = x"
      by (rule strip_no_space)
    with piece ns show ?thesis
      by (auto simp add: token_def filter_id_conv)
  qed
qed

lemma re_split_item: "x \<in> set (re_split t) \<Longrightarrow> piece x \<or> delim x"
  using alternating_items [OF alternating_re_split] .

lemma preprocessed_token: "s \<in> set (preprocessed t) \<Longrightarrow> token s"
  using strip_item [OF re_split_item] by (auto simp add: preprocessed_def)

lemma concat_map_filter_nonempty:
  "concat (map f (filter (\<lambda>x. f x \<noteq> []) xs)) = concat (map f xs)"
  by (induction xs) auto

lemma concat_preprocessed: "concat (preprocessed t) = filter (\<lambda>c. \<not> is_space c) t"
proof -
  have "concat (preprocessed t) = concat (map strip (re_split t))"
    by (simp add: preprocessed_def concat_map_filter_nonempty)
  also have "map strip (re_split t) = map (filter (\<lambda>c. \<not> is_space c)) (re_split t)"
    using strip_item [OF re_split_item] by simp
  also have "concat \<dots> = filter (\<lambda>c. \<not> is_space c) (concat (re_split t))"
    by (simp add: filter_concat)
  finally show ?thesis
    by (simp add: concat_re_split)
qed

lemma preprocessed_empty_iff: "preprocessed t = [] \<longleftrightarrow> (\<forall>c\<in>set t. is_space c)"
proof
  assume "preprocessed t = []"
  then have "filter (\<lambda>c. \<not> is_space c) t = []"
    using concat_preprocessed [of t] by simp
  then show "\<forall>c\<in>set t. is_space c"
    by (simp add: filter_empty_conv)
next
  assume "\<forall>c\<in>set t. is_space c"
  then have "concat (preprocessed t) = []"
    by (simp add: concat_preprocessed filter_empty_conv)
  then have "\<forall>s\<in>set (preprocessed t). s = []"
    by simp
  moreover have "\<forall>s\<in>set (preprocessed t). s \<noteq> []"
    using preprocessed_token by (auto simp add: token_def)
  ultimately show "preprocessed t = []"
    by (cases "preprocessed t") auto
qed

lemma punct_emitted:
  assumes "c \<in> set t" "split_punct c"
  shows "[c] \<in> set (preprocessed t)"
proof -
  have "c \<in> set (concat (preprocessed t))"
    using assms by (simp add: concat_preprocessed punct_not_space)
  then obtain s where s: "s \<in> set (preprocessed t)" "c \<in> set s"
    by auto
  then have "s = [c]"
    using token_punct [OF preprocessed_token] assms(2) by blast
  with s show ?thesis by simp
qed

text \<open>
  C6 (as amended). For every input text the pre-tokenizer returns one fixed sequence of
  symbols, in the order of the text: no symbol is empty or holds whitespace, the symbols
  concatenated are the text without its whitespace, every punctuation character of the
  text is a symbol of its own and no other symbol holds one. The sequence is empty
  exactly when the text has nothing but whitespace.
\<close>

theorem pre_tokenizer_symbols:
  "(\<forall>s\<in>set (preprocessed text). s \<noteq> [] \<and> (\<forall>c\<in>set s. \<not> is_space c)) \<and>
   concat (preprocessed text) = filter (\<lambda>c. \<not> is_space c) text \<and>
   (\<forall>c\<in>set text. split_punct c \<longrightarrow> [c] \<in> set (preprocessed text)) \<and>
   (\<forall>s\<in>set (preprocessed text). \<forall>c\<in>set s. split_punct c \<longrightarrow> s = [c]) \<and>
   (preprocessed text = [] \<longleftrightarrow> (\<forall>c\<in>set text. is_space c))"
proof -
  have "\<forall>s\<in>set (preprocessed text). s \<noteq> [] \<and> (\<forall>c\<in>set s. \<not> is_space c)"
  proof
    fix s
    assume "s \<in> set (preprocessed text)"
    then have "token s"
      by (rule preprocessed_token)
    then show "s \<noteq> [] \<and> (\<forall>c\<in>set s. \<not> is_space c)"
      using token_no_space [of s] by (simp add: token_def)
  qed
  moreover have "\<forall>s\<in>set (preprocessed text). \<forall>c\<in>set s. split_punct c \<longrightarrow> s = [c]"
    using token_punct [OF preprocessed_token] by blast
  moreover have "\<forall>c\<in>set text. split_punct c \<longrightarrow> [c] \<in> set (preprocessed text)"
    using punct_emitted by simp
  ultimately show ?thesis
    using concat_preprocessed [of "text"] preprocessed_empty_iff [of "text"] by simp
qed

theorem pre_tokenizer_symbols_witness:
  "preprocessed (str ''Hi, you  --'') = [str ''Hi'', str '','', str ''you'', str ''--''] \<and>
   concat (preprocessed (str ''Hi, you  --'')) = str ''Hi,you--'' \<and>
   split_punct 44 \<and> [44] \<in> set (preprocessed (str ''Hi, you  --''))"
  using pre_tokenizer_symbols [of "str ''Hi, you  --''"]
  by (simp add: ev)

text \<open>The empty text and a text of blanks give the empty sequence.\<close>

theorem pre_tokenizer_empty_counterexample:
  "preprocessed (str '''') = [] \<and> preprocessed (str ''  '') = []"
  by (simp add: ev)

section \<open>Dictionaries and vocabularies\<close>

lemma map_of_dict_set: "map_of (dict_set k v d) = (map_of d)(k \<mapsto> v)"
  by (induction k v d rule: dict_set.induct) (auto simp add: fun_eq_iff)

lemma keys_dict_set: "fst ` set (dict_set k v d) = insert k (fst ` set d)"
  by (induction k v d rule: dict_set.induct) auto

lemma set_dict_set: "set (dict_set k v d) \<subseteq> insert (k, v) (set d)"
  by (induction k v d rule: dict_set.induct) auto

lemma distinct_dict_set: "distinct (map fst d) \<Longrightarrow> distinct (map fst (dict_set k v d))"
proof (induction k v d rule: dict_set.induct)
  case (1 k v)
  show ?case by simp
next
  case (2 k v k' v' d)
  show ?case
  proof (cases "k' = k")
    case True
    with 2 show ?thesis by simp
  next
    case False
    have "k' \<notin> fst ` set (dict_set k v d)"
      using 2 False by (auto simp add: keys_dict_set)
    with 2 False show ?thesis by simp
  qed
qed

lemma dict_comp_Nil: "dict_comp [] = []"
  by (simp add: dict_comp_def)

lemma dict_comp_snoc: "dict_comp (ps @ [(k, v)]) = dict_set k v (dict_comp ps)"
  by (simp add: dict_comp_def)

lemma distinct_dict_comp: "distinct (map fst (dict_comp ps))"
proof (induction ps rule: rev_induct)
  case Nil
  show ?case by (simp add: dict_comp_Nil)
next
  case (snoc p ps)
  then show ?case
    by (cases p) (simp add: dict_comp_snoc distinct_dict_set)
qed

lemma set_dict_comp: "set (dict_comp ps) \<subseteq> set ps"
proof (induction ps rule: rev_induct)
  case Nil
  show ?case by (simp add: dict_comp_Nil)
next
  case (snoc p ps)
  obtain k v where p: "p = (k, v)" by (cases p)
  show ?case
    using snoc set_dict_set [of k v "dict_comp ps"] by (auto simp add: p dict_comp_snoc)
qed

lemma keys_dict_comp: "fst ` set (dict_comp ps) = fst ` set ps"
proof (induction ps rule: rev_induct)
  case Nil
  show ?case by (simp add: dict_comp_Nil)
next
  case (snoc p ps)
  obtain k v where p: "p = (k, v)" by (cases p)
  show ?case
    using snoc by (simp add: p dict_comp_snoc keys_dict_set)
qed

lemma enumerate_vocab_Nil: "enumerate_vocab [] = []"
  by (simp add: enumerate_vocab_def dict_comp_Nil)

lemma enumerate_vocab_snoc:
  "enumerate_vocab (ts @ [t]) = dict_set t (int (length ts)) (enumerate_vocab ts)"
  by (simp add: enumerate_vocab_def enumerate_append_eq dict_comp_snoc)

lemma map_of_enumerate_vocab_snoc:
  "map_of (enumerate_vocab (ts @ [t])) = (map_of (enumerate_vocab ts))(t \<mapsto> int (length ts))"
  by (simp add: enumerate_vocab_snoc map_of_dict_set)

lemma distinct_enumerate_vocab: "distinct (map fst (enumerate_vocab ts))"
  by (simp add: enumerate_vocab_def distinct_dict_comp)

lemma enumerate_vocab_index:
  "map_of (enumerate_vocab ts) s = Some i \<Longrightarrow> 0 \<le> i \<and> nat i < length ts \<and> ts ! nat i = s"
proof (induction ts rule: rev_induct)
  case Nil
  then show ?case by (simp add: enumerate_vocab_Nil)
next
  case (snoc t ts)
  show ?case
  proof (cases "s = t")
    case True
    then have "i = int (length ts)"
      using snoc.prems by (simp add: map_of_enumerate_vocab_snoc)
    with True show ?thesis by simp
  next
    case False
    then have "map_of (enumerate_vocab ts) s = Some i"
      using snoc.prems by (simp add: map_of_enumerate_vocab_snoc)
    then have "0 \<le> i \<and> nat i < length ts \<and> ts ! nat i = s"
      by (rule snoc.IH)
    then show ?thesis by (simp add: nth_append)
  qed
qed

lemma enumerate_vocab_inj:
  "map_of (enumerate_vocab ts) s = Some i \<Longrightarrow> map_of (enumerate_vocab ts) t = Some i \<Longrightarrow> s = t"
  using enumerate_vocab_index by blast

lemma enumerate_vocab_keys: "map_of (enumerate_vocab ts) s \<noteq> None \<longleftrightarrow> s \<in> set ts"
  by (induction ts rule: rev_induct) (auto simp add: enumerate_vocab_Nil map_of_enumerate_vocab_snoc)

lemma enumerate_vocab_distinct:
  "distinct ts \<Longrightarrow> j < length ts \<Longrightarrow> map_of (enumerate_vocab ts) (ts ! j) = Some (int j)"
proof (induction ts rule: rev_induct)
  case Nil
  then show ?case by simp
next
  case (snoc t ts)
  show ?case
  proof (cases "j < length ts")
    case True
    then have "ts ! j \<noteq> t"
      using snoc.prems by auto
    then show ?thesis
      using snoc True by (simp add: map_of_enumerate_vocab_snoc nth_append)
  next
    case False
    then have "j = length ts"
      using snoc.prems by simp
    then show ?thesis
      by (simp add: map_of_enumerate_vocab_snoc)
  qed
qed

lemma enumerate_vocab_append_fresh:
  "s \<notin> set us \<Longrightarrow> map_of (enumerate_vocab (ts @ us)) s = map_of (enumerate_vocab ts) s"
proof (induction us rule: rev_induct)
  case Nil
  show ?case by simp
next
  case (snoc u us)
  then show ?case
    using map_of_enumerate_vocab_snoc [of "ts @ us" u] by simp
qed

lemma init_lookup_back:
  assumes "distinct (map fst vocab)" "map_of (int_to_str (init vocab)) i = Some s"
  shows "map_of vocab s = Some i"
proof -
  have "(i, s) \<in> set (dict_comp (map (\<lambda>(s, i). (i, s)) vocab))"
    using assms(2) by (simp add: init_def map_of_SomeD)
  then have "(i, s) \<in> set (map (\<lambda>(s, i). (i, s)) vocab)"
    using set_dict_comp by blast
  then have "(s, i) \<in> set vocab"
    by auto
  then show ?thesis
    using assms(1) by simp
qed

lemma init_lookup_forth:
  assumes "distinct (map fst vocab)"
    and inj: "\<And>t. map_of vocab t = Some i \<Longrightarrow> t = s"
    and "map_of vocab s = Some i"
  shows "map_of (int_to_str (init vocab)) i = Some s"
proof -
  have "(s, i) \<in> set vocab"
    using assms(3) by (rule map_of_SomeD)
  then have "i \<in> fst ` set (map (\<lambda>(s, i). (i, s)) vocab)"
    by force
  then have "i \<in> fst ` set (int_to_str (init vocab))"
    by (simp add: init_def keys_dict_comp)
  then obtain t where t: "map_of (int_to_str (init vocab)) i = Some t"
    using weak_map_of_SomeI by force
  then have "map_of vocab t = Some i"
    using init_lookup_back [OF assms(1)] by simp
  then have "t = s"
    by (rule inj)
  with t show ?thesis by simp
qed

lemma str_to_int_init: "str_to_int (init vocab) = vocab"
  by (simp add: init_def)

lemma getitems_present:
  "\<forall>k\<in>set ks. map_of d k \<noteq> None \<Longrightarrow> getitems d ks = Inr (map (\<lambda>k. the (map_of d k)) ks)"
  by (induction ks) auto

lemma getitems_missing:
  "k \<in> set ks \<Longrightarrow> map_of d k = None \<Longrightarrow>
     \<exists>k'. getitems d ks = Inl (KeyError k') \<and> k' \<in> set ks \<and> map_of d k' = None"
  by (induction ks) (auto split: option.splits sum.splits)

lemma getitems_Inr:
  "getitems d ks = Inr vs \<Longrightarrow> vs = map (\<lambda>k. the (map_of d k)) ks \<and> (\<forall>k\<in>set ks. map_of d k \<noteq> None)"
  by (induction ks arbitrary: vs) (auto split: option.splits sum.splits)

lemma special_tokens_differ: "endoftext \<noteq> unk"
  by (simp add: endoftext_def unk_def str_def)

lemma all_words_sorted: "sorted (all_words raw_text) \<and> distinct (all_words raw_text)"
  by (simp add: all_words_def all_words_of_def)

lemma set_all_words: "set (all_words raw_text) = set (preprocessed raw_text)"
  by (simp add: all_words_def all_words_of_def)

lemma all_tokens_all_words: "all_tokens raw_text = (all_words raw_text @ [endoftext]) @ [unk]"
  by (simp add: all_tokens_def all_tokens_of_def all_words_def all_words_of_def)

lemma map_of_vocab_V2:
  "map_of (vocab_V2 raw_text) =
     (map_of (vocab_V1 raw_text))
       (endoftext \<mapsto> int (length (all_words raw_text)),
        unk \<mapsto> int (length (all_words raw_text)) + 1)"
proof -
  let ?ws = "all_words raw_text"
  have "map_of (enumerate_vocab ((?ws @ [endoftext]) @ [unk])) =
      (map_of (enumerate_vocab ?ws))
        (endoftext \<mapsto> int (length ?ws), unk \<mapsto> int (length (?ws @ [endoftext])))"
    by (simp only: map_of_enumerate_vocab_snoc)
  then show ?thesis
    by (simp add: vocab_V2_def vocab_V1_def all_tokens_all_words add.commute)
qed

lemma vocab_V2_unk: "map_of (vocab_V2 raw_text) unk = Some (int (length (all_words raw_text)) + 1)"
  by (simp add: map_of_vocab_V2)

lemma vocab_V2_endoftext:
  "map_of (vocab_V2 raw_text) endoftext = Some (int (length (all_words raw_text)))"
  using special_tokens_differ by (simp add: map_of_vocab_V2)

lemma vocab_V2_ordinary:
  "s \<noteq> endoftext \<Longrightarrow> s \<noteq> unk \<Longrightarrow> map_of (vocab_V2 raw_text) s = map_of (vocab_V1 raw_text) s"
  by (simp add: map_of_vocab_V2)

lemma vocab_V1_nth:
  "j < length (all_words raw_text) \<Longrightarrow>
     map_of (vocab_V1 raw_text) (all_words raw_text ! j) = Some (int j)"
  using all_words_sorted [of raw_text] by (simp add: vocab_V1_def enumerate_vocab_distinct)

lemma vocab_V2_inj:
  "map_of (vocab_V2 raw_text) s = Some i \<Longrightarrow> map_of (vocab_V2 raw_text) t = Some i \<Longrightarrow> s = t"
  unfolding vocab_V2_def by (rule enumerate_vocab_inj)

lemma vocab_V1_inj:
  "map_of (vocab_V1 raw_text) s = Some i \<Longrightarrow> map_of (vocab_V1 raw_text) t = Some i \<Longrightarrow> s = t"
  unfolding vocab_V1_def by (rule enumerate_vocab_inj)

lemma distinct_vocab: "distinct (map fst (vocab_V1 raw_text))" "distinct (map fst (vocab_V2 raw_text))"
  by (simp_all add: vocab_V1_def vocab_V2_def distinct_enumerate_vocab)

lemma int_to_str_V2:
  "map_of (int_to_str (init (vocab_V2 raw_text))) i = Some s \<longleftrightarrow> map_of (vocab_V2 raw_text) s = Some i"
proof
  assume "map_of (int_to_str (init (vocab_V2 raw_text))) i = Some s"
  then show "map_of (vocab_V2 raw_text) s = Some i"
    using init_lookup_back distinct_vocab(2) by blast
next
  assume a: "map_of (vocab_V2 raw_text) s = Some i"
  show "map_of (int_to_str (init (vocab_V2 raw_text))) i = Some s"
  proof (rule init_lookup_forth)
    show "distinct (map fst (vocab_V2 raw_text))"
      by (rule distinct_vocab)
    show "map_of (vocab_V2 raw_text) s = Some i"
      by (rule a)
    show "t = s" if "map_of (vocab_V2 raw_text) t = Some i" for t
      using that a by (rule vocab_V2_inj)
  qed
qed

lemma int_to_str_V1:
  "map_of (int_to_str (init (vocab_V1 raw_text))) i = Some s \<longleftrightarrow> map_of (vocab_V1 raw_text) s = Some i"
proof
  assume "map_of (int_to_str (init (vocab_V1 raw_text))) i = Some s"
  then show "map_of (vocab_V1 raw_text) s = Some i"
    using init_lookup_back distinct_vocab(1) by blast
next
  assume a: "map_of (vocab_V1 raw_text) s = Some i"
  show "map_of (int_to_str (init (vocab_V1 raw_text))) i = Some s"
  proof (rule init_lookup_forth)
    show "distinct (map fst (vocab_V1 raw_text))"
      by (rule distinct_vocab)
    show "map_of (vocab_V1 raw_text) s = Some i"
      by (rule a)
    show "t = s" if "map_of (vocab_V1 raw_text) t = Some i" for t
      using that a by (rule vocab_V1_inj)
  qed
qed

lemma encode_V2_result:
  assumes "map_of (str_to_int self) unk = Some u"
  shows "encode_V2 self text =
     Inr (map (\<lambda>s. case map_of (str_to_int self) s of None \<Rightarrow> u | Some i \<Rightarrow> i) (preprocessed text))"
proof -
  let ?items = "map (\<lambda>item. if map_of (str_to_int self) item \<noteq> None then item else unk)
                  (preprocessed text)"
  have "\<forall>k\<in>set ?items. map_of (str_to_int self) k \<noteq> None"
    using assms by auto
  then have "getitems (str_to_int self) ?items = Inr (map (\<lambda>k. the (map_of (str_to_int self) k)) ?items)"
    by (rule getitems_present)
  also have "map (\<lambda>k. the (map_of (str_to_int self) k)) ?items =
      map (\<lambda>s. case map_of (str_to_int self) s of None \<Rightarrow> u | Some i \<Rightarrow> i) (preprocessed text)"
    using assms by (auto split: option.splits)
  finally show ?thesis
    by (simp add: encode_V2_def)
qed

lemma encode_V2_script:
  "encode_V2 (init (vocab_V2 raw_text)) text =
     Inr (map (\<lambda>s. case map_of (vocab_V2 raw_text) s of
                      None \<Rightarrow> int (length (all_words raw_text)) + 1 | Some i \<Rightarrow> i)
            (preprocessed text))"
  using encode_V2_result [of "init (vocab_V2 raw_text)" _ "text"] vocab_V2_unk [of raw_text]
  by (simp add: str_to_int_init)

text \<open>
  C9. \<open>SimpleTokenizerV2.encode\<close> with the vocabulary the script builds returns a list
  of IDs for every text, one per symbol: a symbol that is not a key is replaced by
  \<open><|unk|>\<close>, which is a key.
\<close>

theorem encode_V2_total:
  "\<exists>ids. encode_V2 (init (vocab_V2 raw_text)) text = Inr ids \<and>
          length ids = length (preprocessed text)"
  by (simp add: encode_V2_script)

theorem encode_V2_total_witness:
  "encode_V2 (init (vocab_V2 (str ''a cat''))) (str ''a dog'') = Inr [0, 3]"
  using encode_V2_total [of "str ''a cat''" "str ''a dog''"]
  by (simp add: ev)

section \<open>Encoding and decoding\<close>

lemma space_literal: "str '' '' = [0x20]" "is_space 0x20"
  by (simp_all add: str_def is_space_def)

lemma re_sub_no_space: "\<forall>c\<in>set t. \<not> is_space c \<Longrightarrow> re_sub cls (t @ r) = t @ re_sub cls r"
  by (induction t) auto

lemma re_sub_no_space_whole: "\<forall>c\<in>set t. \<not> is_space c \<Longrightarrow> re_sub cls t = t"
  using re_sub_no_space [of t cls "[]"] by simp

lemma re_sub_space_then:
  "is_space sp \<Longrightarrow> \<not> is_space d \<Longrightarrow>
     re_sub cls (sp # d # w) = (if cls d then [] else [sp]) @ re_sub cls (d # w)"
  by simp

lemma join_Cons: "y \<noteq> [] \<Longrightarrow> \<exists>w. join sep (y # ys) = hd y # w"
  by (cases y; cases ys) auto

lemma re_sub_join:
  "\<forall>t\<in>set ts. t \<noteq> [] \<and> (\<forall>c\<in>set t. \<not> is_space c) \<Longrightarrow>
     re_sub cls (join [0x20] ts) = spaced cls ts"
proof (induction cls ts rule: spaced.induct)
  case (1 cls)
  show ?case by simp
next
  case (2 cls x)
  then show ?case by (simp add: re_sub_no_space_whole)
next
  case (3 cls x y ys)
  have x: "\<forall>c\<in>set x. \<not> is_space c"
    using 3 by simp
  obtain d ds where y: "y = d # ds" and d: "\<not> is_space d"
    using "3.prems" by (cases y) auto
  obtain w where w: "join [0x20] (y # ys) = d # w"
    using join_Cons [of y "[0x20]" ys] y by auto
  have ih: "re_sub cls (d # w) = spaced cls (y # ys)"
    using 3 w by simp
  have "re_sub cls (join [0x20] (x # y # ys)) = x @ re_sub cls (0x20 # d # w)"
    using re_sub_no_space [OF x] w by simp
  also have "re_sub cls (0x20 # d # w) = (if cls d then [] else [0x20]) @ re_sub cls (d # w)"
    using space_literal(2) d by (rule re_sub_space_then)
  finally show ?case
    using ih y by simp
qed

lemma split_punct_code: "split_punct c \<longleftrightarrow> c \<in> {44, 46, 58, 59, 63, 95, 33, 40, 41, 34, 39}"
  by (auto simp add: split_punct_def str_def)

lemma token_special: "token endoftext" "token unk"
  by (simp_all add: token_def endoftext_def unk_def str_def split_punct_code is_space_def hyphen_def)

lemma vocab_V1_token: "map_of (vocab_V1 raw_text) s = Some i \<Longrightarrow> token s"
proof -
  assume "map_of (vocab_V1 raw_text) s = Some i"
  then have "s \<in> set (all_words raw_text)"
    using enumerate_vocab_keys [of "all_words raw_text" s] by (simp add: vocab_V1_def)
  then show "token s"
    using preprocessed_token by (simp add: set_all_words)
qed

lemma vocab_V2_token: "map_of (vocab_V2 raw_text) s = Some i \<Longrightarrow> token s"
proof -
  assume "map_of (vocab_V2 raw_text) s = Some i"
  then have "s \<in> set (all_tokens raw_text)"
    using enumerate_vocab_keys [of "all_tokens raw_text" s] by (simp add: vocab_V2_def)
  then have "s \<in> set (preprocessed raw_text) \<or> s = endoftext \<or> s = unk"
    by (auto simp add: all_tokens_all_words set_all_words)
  then show "token s"
    using preprocessed_token token_special by blast
qed

lemma token_plain: "token t \<Longrightarrow> t \<noteq> [] \<and> (\<forall>c\<in>set t. \<not> is_space c)"
  using token_no_space by (auto simp add: token_def)

lemma decode_V2_present:
  assumes "\<forall>i\<in>set ids. map_of (int_to_str self) i \<noteq> None"
  shows "decode_V2 self ids =
     Inr (re_sub join_punct_V2 (join (str '' '') (map (\<lambda>i. the (map_of (int_to_str self) i)) ids)))"
  using getitems_present [OF assms] by (simp add: decode_V2_def)

lemma decode_V1_present:
  assumes "\<forall>i\<in>set ids. map_of (int_to_str self) i \<noteq> None"
  shows "decode_V1 self ids =
     Inr (re_sub join_punct_V1 (join (str '' '') (map (\<lambda>i. the (map_of (int_to_str self) i)) ids)))"
  using getitems_present [OF assms] by (simp add: decode_V1_def)

lemma decode_V2_script:
  assumes "\<forall>i\<in>set ids. map_of (int_to_str (init (vocab_V2 raw_text))) i \<noteq> None"
  shows "decode_V2 (init (vocab_V2 raw_text)) ids =
     Inr (spaced join_punct_V2 (map (\<lambda>i. the (map_of (int_to_str (init (vocab_V2 raw_text))) i)) ids))"
proof -
  let ?items = "map (\<lambda>i. the (map_of (int_to_str (init (vocab_V2 raw_text))) i)) ids"
  have "\<forall>t\<in>set ?items. token t"
  proof
    fix t
    assume "t \<in> set ?items"
    then obtain i where i: "i \<in> set ids" "t = the (map_of (int_to_str (init (vocab_V2 raw_text))) i)"
      by auto
    then have "map_of (int_to_str (init (vocab_V2 raw_text))) i = Some t"
      using assms by auto
    then have "map_of (vocab_V2 raw_text) t = Some i"
      by (simp add: int_to_str_V2)
    then show "token t"
      by (rule vocab_V2_token)
  qed
  then have "\<forall>t\<in>set ?items. t \<noteq> [] \<and> (\<forall>c\<in>set t. \<not> is_space c)"
    using token_plain by blast
  then have "re_sub join_punct_V2 (join [0x20] ?items) = spaced join_punct_V2 ?items"
    by (rule re_sub_join)
  then show ?thesis
    using decode_V2_present [OF assms] by (simp add: space_literal)
qed

lemma decode_V1_script:
  assumes "\<forall>i\<in>set ids. map_of (int_to_str (init (vocab_V1 raw_text))) i \<noteq> None"
  shows "decode_V1 (init (vocab_V1 raw_text)) ids =
     Inr (spaced join_punct_V1 (map (\<lambda>i. the (map_of (int_to_str (init (vocab_V1 raw_text))) i)) ids))"
proof -
  let ?items = "map (\<lambda>i. the (map_of (int_to_str (init (vocab_V1 raw_text))) i)) ids"
  have "\<forall>t\<in>set ?items. token t"
  proof
    fix t
    assume "t \<in> set ?items"
    then obtain i where i: "i \<in> set ids" "t = the (map_of (int_to_str (init (vocab_V1 raw_text))) i)"
      by auto
    then have "map_of (int_to_str (init (vocab_V1 raw_text))) i = Some t"
      using assms by auto
    then have "map_of (vocab_V1 raw_text) t = Some i"
      by (simp add: int_to_str_V1)
    then show "token t"
      by (rule vocab_V1_token)
  qed
  then have "\<forall>t\<in>set ?items. t \<noteq> [] \<and> (\<forall>c\<in>set t. \<not> is_space c)"
    using token_plain by blast
  then have "re_sub join_punct_V1 (join [0x20] ?items) = spaced join_punct_V1 ?items"
    by (rule re_sub_join)
  then show ?thesis
    using decode_V1_present [OF assms] by (simp add: space_literal)
qed

lemma decode_V2_unk:
  "decode_V2 (init (vocab_V2 raw_text)) [int (length (all_words raw_text)) + 1] = Inr unk"
proof -
  have "map_of (int_to_str (init (vocab_V2 raw_text))) (int (length (all_words raw_text)) + 1) = Some unk"
    by (simp add: int_to_str_V2 vocab_V2_unk)
  moreover have "re_sub join_punct_V2 unk = unk"
    using token_plain [OF token_special(2)] by (simp add: re_sub_no_space_whole)
  ultimately show ?thesis
    by (simp add: decode_V2_def)
qed

text \<open>
  C3. A symbol of the text that is not a key of the vocabulary makes
  \<open>SimpleTokenizerV1.encode\<close>, which has no fallback, fail with the \<open>KeyError\<close> of a
  missing symbol. \<open>SimpleTokenizerV2.encode\<close>, whose vocabulary holds \<open><|unk|>\<close>,
  returns the ID of \<open><|unk|>\<close> at the place of every such symbol, and decoding that ID
  gives the string \<open><|unk|>\<close>.
\<close>

theorem unknown_symbol_handling:
  "(s \<in> set (preprocessed text) \<and> map_of (str_to_int self) s = None \<longrightarrow>
      (\<exists>k. encode_V1 self text = Inl (KeyError k) \<and> k \<in> set (preprocessed text) \<and>
           map_of (str_to_int self) k = None)) \<and>
   (\<exists>ids. encode_V2 (init (vocab_V2 raw_text)) text = Inr ids \<and>
      length ids = length (preprocessed text) \<and>
      (\<forall>j<length ids. map_of (vocab_V2 raw_text) (preprocessed text ! j) = None \<longrightarrow>
         ids ! j = int (length (all_words raw_text)) + 1)) \<and>
   map_of (vocab_V2 raw_text) unk = Some (int (length (all_words raw_text)) + 1) \<and>
   decode_V2 (init (vocab_V2 raw_text)) [int (length (all_words raw_text)) + 1] = Inr unk"
proof -
  have "\<exists>k. encode_V1 self text = Inl (KeyError k) \<and> k \<in> set (preprocessed text) \<and>
           map_of (str_to_int self) k = None"
    if "s \<in> set (preprocessed text)" "map_of (str_to_int self) s = None"
    using getitems_missing [OF that] by (simp add: encode_V1_def)
  moreover have "\<exists>ids. encode_V2 (init (vocab_V2 raw_text)) text = Inr ids \<and>
      length ids = length (preprocessed text) \<and>
      (\<forall>j<length ids. map_of (vocab_V2 raw_text) (preprocessed text ! j) = None \<longrightarrow>
         ids ! j = int (length (all_words raw_text)) + 1)"
    by (simp add: encode_V2_script)
  ultimately show ?thesis
    using vocab_V2_unk [of raw_text] decode_V2_unk [of raw_text] by blast
qed

text \<open>
  A text with the unknown symbol \<open>dog\<close>, for both tokenizers.
\<close>

theorem unknown_symbol_handling_witness:
  "str ''dog'' \<in> set (preprocessed (str ''a dog'')) \<and>
   map_of (str_to_int (init (vocab_V1 (str ''a cat'')))) (str ''dog'') = None \<and>
   encode_V1 (init (vocab_V1 (str ''a cat''))) (str ''a dog'') = Inl (KeyError (str ''dog'')) \<and>
   encode_V2 (init (vocab_V2 (str ''a cat''))) (str ''a dog'') = Inr [0, 3] \<and>
   decode_V2 (init (vocab_V2 (str ''a cat''))) [3] = Inr (str ''<|unk|>'')"
  using unknown_symbol_handling [of "str ''dog''" "str ''a dog''" "init (vocab_V1 (str ''a cat''))" "str ''a cat''"]
  by (simp add: ev)

text \<open>
  C2 (as amended). \<open>SimpleTokenizerV2.encode\<close> has no set of allowed special tokens
  and never fails: where the text of a special token stands as a symbol of the input,
  the result holds that token's ID.
\<close>

theorem special_token_text_encoded:
  "\<exists>ids. encode_V2 (init (vocab_V2 raw_text)) text = Inr ids \<and>
      length ids = length (preprocessed text) \<and>
      (\<forall>j<length ids.
         (preprocessed text ! j = endoftext \<longrightarrow> ids ! j = int (length (all_words raw_text))) \<and>
         (preprocessed text ! j = unk \<longrightarrow> ids ! j = int (length (all_words raw_text)) + 1))"
  by (simp add: encode_V2_script vocab_V2_unk vocab_V2_endoftext)

theorem special_token_text_encoded_witness:
  "preprocessed (str ''Hello <|endoftext|> world'') ! 1 = endoftext \<and>
   encode_V2 (init (vocab_V2 (str ''Hello world''))) (str ''Hello <|endoftext|> world'') = Inr [0, 2, 1]"
  using special_token_text_encoded [of "str ''Hello world''" "str ''Hello <|endoftext|> world''"]
  by (simp add: ev)

text \<open>
  The text \<open><|endoftext|>\<close> is encoded as the ID of the special token.
\<close>

theorem special_token_not_rejected_counterexample:
  "encode_V2 (init (vocab_V2 (str ''Hello world''))) (str ''<|endoftext|>'') = Inr [2]"
  by (simp add: ev)

text \<open>
  C4 (as amended). For IDs that are all keys of \<open>int_to_str\<close>, decoding looks each
  one up, joins the symbols with one blank between neighbours and deletes the whitespace
  before the punctuation of its class. With the vocabularies the script builds the result
  is the symbols in order with a blank before each but the first, and none before a
  punctuation symbol of the class.
\<close>

theorem decode_joins_with_blanks:
  "((\<forall>i\<in>set ids. map_of (int_to_str self) i \<noteq> None) \<longrightarrow>
      decode_V1 self ids =
        Inr (re_sub join_punct_V1 (join (str '' '') (map (\<lambda>i. the (map_of (int_to_str self) i)) ids))) \<and>
      decode_V2 self ids =
        Inr (re_sub join_punct_V2 (join (str '' '') (map (\<lambda>i. the (map_of (int_to_str self) i)) ids)))) \<and>
   ((\<forall>i\<in>set ids. map_of (int_to_str (init (vocab_V1 raw_text))) i \<noteq> None) \<longrightarrow>
      decode_V1 (init (vocab_V1 raw_text)) ids =
        Inr (spaced join_punct_V1
               (map (\<lambda>i. the (map_of (int_to_str (init (vocab_V1 raw_text))) i)) ids))) \<and>
   ((\<forall>i\<in>set ids. map_of (int_to_str (init (vocab_V2 raw_text))) i \<noteq> None) \<longrightarrow>
      decode_V2 (init (vocab_V2 raw_text)) ids =
        Inr (spaced join_punct_V2
               (map (\<lambda>i. the (map_of (int_to_str (init (vocab_V2 raw_text))) i)) ids)))"
  using decode_V1_present [of ids self] decode_V2_present [of ids self]
    decode_V1_script [of ids raw_text] decode_V2_script [of ids raw_text]
  by blast

theorem decode_joins_with_blanks_witness:
  "list_all (\<lambda>i. map_of (int_to_str (init (vocab_V2 (str ''you, see.'')))) i \<noteq> None) [1, 3, 0, 2] \<and>
   decode_V2 (init (vocab_V2 (str ''you, see.''))) [1, 3, 0, 2] = Inr (str ''. you, see'') \<and>
   spaced join_punct_V2 [str ''.'', str ''you'', str '','', str ''see''] = str ''. you, see''"
  using decode_joins_with_blanks [of "[1, 3, 0, 2]" "init (vocab_V2 (str ''you, see.''))" "str ''you, see.''"]
  by (simp add: ev)

text \<open>
  Two symbols are decoded with a blank between them, not as their concatenation.
\<close>

theorem decode_separator_counterexample:
  "decode_V2 (init (vocab_V2 (str ''a b''))) [0, 1] = Inr (str ''a b'') \<and>
   decode_V1 (init (vocab_V1 (str ''a b''))) [0, 1] = Inr (str ''a b'') \<and>
   concat [str ''a'', str ''b''] = str ''ab'' \<and> str ''a b'' \<noteq> str ''ab''"
  by (simp add: ev)

lemma vocab_V2_bounds:
  "map_of (vocab_V2 raw_text) s = Some i \<Longrightarrow> 0 \<le> i \<and> i \<le> int (length (all_words raw_text)) + 1"
proof -
  assume "map_of (vocab_V2 raw_text) s = Some i"
  then have "0 \<le> i \<and> nat i < length (all_tokens raw_text)"
    using enumerate_vocab_index [of "all_tokens raw_text" s i] by (simp add: vocab_V2_def)
  then show ?thesis
    by (simp add: all_tokens_all_words) linarith
qed

lemma vocab_V2_hole:
  assumes "j < length (all_words raw_text)"
    and "all_words raw_text ! j = endoftext \<or> all_words raw_text ! j = unk"
  shows "map_of (vocab_V2 raw_text) s \<noteq> Some (int j)"
proof
  assume a: "map_of (vocab_V2 raw_text) s = Some (int j)"
  then have "all_tokens raw_text ! j = s"
    using enumerate_vocab_index [of "all_tokens raw_text" s "int j"] by (simp add: vocab_V2_def)
  then have "s = all_words raw_text ! j"
    using assms(1) by (simp add: all_tokens_all_words nth_append)
  then have "s = endoftext \<or> s = unk"
    using assms(2) by simp
  then show False
    using a assms(1) vocab_V2_endoftext [of raw_text] vocab_V2_unk [of raw_text] by auto
qed

text \<open>
  C5 (as amended). The initial symbols are sorted and without duplicates. The first
  vocabulary gives the symbol at position \<open>j\<close> of that order the ID \<open>j\<close>. The second does
  so for every symbol that is not the text of a special token, and gives the two special
  tokens the two largest IDs, \<open>n\<close> and \<open>n + 1\<close> for \<open>n\<close> initial symbols. An initial symbol
  that is the text of a special token so has that token's ID, and the ID of its position
  in the sorted order is the ID of no symbol.
\<close>

theorem vocabulary_ids:
  "sorted (all_words raw_text) \<and> distinct (all_words raw_text) \<and>
   set (all_words raw_text) = set (preprocessed raw_text) \<and>
   (\<forall>j<length (all_words raw_text).
      map_of (vocab_V1 raw_text) (all_words raw_text ! j) = Some (int j)) \<and>
   (\<forall>j<length (all_words raw_text).
      all_words raw_text ! j \<noteq> endoftext \<and> all_words raw_text ! j \<noteq> unk \<longrightarrow>
        map_of (vocab_V2 raw_text) (all_words raw_text ! j) = Some (int j)) \<and>
   (\<forall>j<length (all_words raw_text).
      all_words raw_text ! j = endoftext \<or> all_words raw_text ! j = unk \<longrightarrow>
        (\<forall>s. map_of (vocab_V2 raw_text) s \<noteq> Some (int j))) \<and>
   map_of (vocab_V2 raw_text) endoftext = Some (int (length (all_words raw_text))) \<and>
   map_of (vocab_V2 raw_text) unk = Some (int (length (all_words raw_text)) + 1) \<and>
   (\<forall>s i. map_of (vocab_V2 raw_text) s = Some i \<longrightarrow>
      0 \<le> i \<and> i \<le> int (length (all_words raw_text)) + 1)"
proof -
  have "\<forall>j<length (all_words raw_text).
      all_words raw_text ! j \<noteq> endoftext \<and> all_words raw_text ! j \<noteq> unk \<longrightarrow>
        map_of (vocab_V2 raw_text) (all_words raw_text ! j) = Some (int j)"
    by (simp add: vocab_V2_ordinary vocab_V1_nth)
  moreover have "\<forall>j<length (all_words raw_text).
      all_words raw_text ! j = endoftext \<or> all_words raw_text ! j = unk \<longrightarrow>
        (\<forall>s. map_of (vocab_V2 raw_text) s \<noteq> Some (int j))"
    using vocab_V2_hole by blast
  moreover have "\<forall>s i. map_of (vocab_V2 raw_text) s = Some i \<longrightarrow>
      0 \<le> i \<and> i \<le> int (length (all_words raw_text)) + 1"
    using vocab_V2_bounds by blast
  ultimately show ?thesis
    using all_words_sorted [of raw_text] set_all_words [of raw_text] vocab_V1_nth [of _ raw_text]
      vocab_V2_endoftext [of raw_text] vocab_V2_unk [of raw_text]
    by simp
qed

theorem vocabulary_ids_witness:
  "all_words (str ''b, a'') = [str '','', str ''a'', str ''b''] \<and>
   map_of (vocab_V2 (str ''b, a'')) (str ''a'') = Some 1 \<and>
   map_of (vocab_V2 (str ''b, a'')) endoftext = Some 3 \<and>
   map_of (vocab_V2 (str ''b, a'')) unk = Some 4 \<and>
   all_words (str ''<|unk|> a'') = [unk, str ''a''] \<and>
   (\<forall>s. map_of (vocab_V2 (str ''<|unk|> a'')) s \<noteq> Some 0) \<and>
   map_of (vocab_V2 (str ''<|unk|> a'')) unk = Some 3"
proof -
  have ws: "all_words (str ''<|unk|> a'') = [unk, str ''a'']"
    by (simp add: ev)
  have "\<forall>j<length (all_words (str ''<|unk|> a'')).
      all_words (str ''<|unk|> a'') ! j = endoftext \<or> all_words (str ''<|unk|> a'') ! j = unk \<longrightarrow>
        (\<forall>s. map_of (vocab_V2 (str ''<|unk|> a'')) s \<noteq> Some (int j))"
    using vocabulary_ids [of "str ''<|unk|> a''"] by blast
  then have hole: "\<forall>s. map_of (vocab_V2 (str ''<|unk|> a'')) s \<noteq> Some 0"
    using ws by auto
  have "map_of (vocab_V2 (str ''<|unk|> a'')) unk = Some 3"
    using vocabulary_ids [of "str ''<|unk|> a''"] ws by simp
  then show ?thesis
    using vocabulary_ids [of "str ''b, a''"] ws hole by (simp add: ev)
qed

text \<open>
  A corpus that holds the text \<open><|unk|>\<close>: the first symbol of the sorted order has the
  largest ID, and no symbol has the ID 0.
\<close>

theorem vocabulary_ids_counterexample:
  "all_words (str ''<|unk|> a'') = [str ''<|unk|>'', str ''a''] \<and>
   map_of (vocab_V2 (str ''<|unk|> a'')) (str ''<|unk|>'') = Some 3 \<and>
   map_of (vocab_V2 (str ''<|unk|> a'')) (str ''a'') = Some 1 \<and>
   vocab_V2 (str ''<|unk|> a'') = [(str ''<|unk|>'', 3), (str ''a'', 1), (str ''<|endoftext|>'', 2)]"
  by (simp add: ev)

text \<open>
  C7. Two builds from the same corpus give the same vocabularies, whatever the order in
  which each run iterates over \<open>set(preprocessed)\<close>: sorting removes that order.
\<close>

theorem vocabulary_deterministic:
  "distinct members \<and> set members = set (preprocessed raw_text) \<and>
   distinct members' \<and> set members' = set (preprocessed raw_text) \<longrightarrow>
     enumerate_vocab (all_words_of members) = enumerate_vocab (all_words_of members') \<and>
     enumerate_vocab (all_tokens_of members) = enumerate_vocab (all_tokens_of members') \<and>
     enumerate_vocab (all_words_of members) = vocab_V1 raw_text \<and>
     enumerate_vocab (all_tokens_of members) = vocab_V2 raw_text"
proof
  assume a: "distinct members \<and> set members = set (preprocessed raw_text) \<and>
   distinct members' \<and> set members' = set (preprocessed raw_text)"
  have same: "sort xs = sort (remdups (preprocessed raw_text))"
    if "distinct xs" "set xs = set (preprocessed raw_text)" for xs :: "pystr list"
  proof (rule sorted_distinct_set_unique)
    show "sorted (sort xs)" "sorted (sort (remdups (preprocessed raw_text)))"
      by simp_all
    show "distinct (sort xs)" "distinct (sort (remdups (preprocessed raw_text)))"
      using that by simp_all
    show "set (sort xs) = set (sort (remdups (preprocessed raw_text)))"
      using that by simp
  qed
  have "sort members = sort (remdups (preprocessed raw_text))"
    using a by (intro same) simp_all
  moreover have "sort members' = sort (remdups (preprocessed raw_text))"
    using a by (intro same) simp_all
  ultimately show "enumerate_vocab (all_words_of members) = enumerate_vocab (all_words_of members') \<and>
     enumerate_vocab (all_tokens_of members) = enumerate_vocab (all_tokens_of members') \<and>
     enumerate_vocab (all_words_of members) = vocab_V1 raw_text \<and>
     enumerate_vocab (all_tokens_of members) = vocab_V2 raw_text"
    by (simp add: all_words_of_def all_tokens_of_def vocab_V1_def vocab_V2_def all_words_def
        all_tokens_def)
qed

theorem vocabulary_deterministic_witness:
  "distinct [str ''b'', str ''a''] \<and> set [str ''b'', str ''a''] = set (preprocessed (str ''a b a'')) \<and>
   distinct [str ''a'', str ''b''] \<and> set [str ''a'', str ''b''] = set (preprocessed (str ''a b a'')) \<and>
   enumerate_vocab (all_tokens_of [str ''b'', str ''a'']) =
     enumerate_vocab (all_tokens_of [str ''a'', str ''b'']) \<and>
   enumerate_vocab (all_tokens_of [str ''b'', str ''a'']) = vocab_V2 (str ''a b a'')"
  using vocabulary_deterministic [of "[str ''b'', str ''a'']" "str ''a b a''" "[str ''a'', str ''b'']"]
  by (simp add: ev insert_commute)

section \<open>Round trips\<close>

lemma re_split_delim:
  "split_punct e \<or> is_space e \<Longrightarrow> re_split (e # r) = [] # [e] # re_split r"
  using hyphen_plain by (cases r) auto

lemma re_split_dash: "re_split (hyphen # hyphen # r) = [] # [hyphen, hyphen] # re_split r"
  using hyphen_plain by simp

lemma re_split_piece_then:
  "piece t \<Longrightarrow> t \<noteq> [] \<Longrightarrow> split_punct e \<or> is_space e \<Longrightarrow>
     re_split (t @ e # r) = t # [e] # re_split r"
proof (induction t rule: piece.induct)
  case 1
  then show ?case by simp
next
  case (2 c)
  have "e \<noteq> hyphen"
    using 2 hyphen_plain by auto
  then show ?case
    using 2 re_split_delim [of e r] by simp
next
  case (3 c d cs)
  then have "re_split ((d # cs) @ e # r) = (d # cs) # [e] # re_split r"
    by simp
  then show ?case
    using 3 by simp
qed

lemma preprocessed_Cons:
  "re_split t = x # xs \<Longrightarrow>
     preprocessed t = (if strip x = [] then [] else [strip x]) @
       map strip (filter (\<lambda>item. strip item \<noteq> []) xs)"
  by (simp add: preprocessed_def)

lemma strip_Nil: "strip [] = []"
  by (simp add: strip_def)

lemma strip_token: "token t \<Longrightarrow> strip t = t \<and> strip t \<noteq> []"
  using token_plain [of t] strip_no_space [of t] by simp

lemma token_cases:
  assumes "token t"
  obtains (piece) "piece t" "t \<noteq> []"
    | (punct) c where "t = [c]" "split_punct c"
    | (dash) "t = [hyphen, hyphen]"
  using assms by (auto simp add: token_def)

lemma preprocessed_space: "is_space e \<Longrightarrow> preprocessed (e # r) = preprocessed r"
  using re_split_delim [of e r] by (simp add: preprocessed_def strip_space strip_Nil)

lemma preprocessed_token_alone:
  assumes "token t"
  shows "preprocessed t = [t]"
  using assms
proof (cases t rule: token_cases)
  case piece
  then show ?thesis
    using strip_token [OF assms] by (simp add: preprocessed_def piece_re_split)
next
  case (punct c)
  then show ?thesis
    using strip_token [OF assms] by (simp add: preprocessed_def strip_Nil)
next
  case dash
  then show ?thesis
    using strip_token [OF assms] re_split_dash [of "[]"] by (simp add: preprocessed_def strip_Nil)
qed

lemma preprocessed_token_then:
  assumes "token t" "split_punct e \<or> is_space e"
  shows "preprocessed (t @ e # r) = t # preprocessed (e # r)"
proof -
  have rest: "preprocessed (e # r) =
      map strip (filter (\<lambda>item. strip item \<noteq> []) ([e] # re_split r))"
    using re_split_delim [OF assms(2), of r] by (simp add: preprocessed_def strip_Nil)
  from assms(1) show ?thesis
  proof (cases t rule: token_cases)
    case piece
    then have "re_split (t @ e # r) = t # [e] # re_split r"
      using assms(2) by (rule re_split_piece_then)
    then have "preprocessed (t @ e # r) =
        t # map strip (filter (\<lambda>item. strip item \<noteq> []) ([e] # re_split r))"
      using strip_token [OF assms(1)] piece(2) by (simp add: preprocessed_def)
    then show ?thesis
      using rest by simp
  next
    case (punct c)
    then have "re_split (t @ e # r) = [] # [c] # re_split (e # r)"
      by simp
    then have "preprocessed (t @ e # r) = [c] # preprocessed (e # r)"
      using strip_token [OF assms(1)] punct by (simp add: preprocessed_def strip_Nil)
    then show ?thesis
      using punct by simp
  next
    case dash
    then have "re_split (t @ e # r) = [] # [hyphen, hyphen] # re_split (e # r)"
      using re_split_dash by simp
    then have "preprocessed (t @ e # r) = [hyphen, hyphen] # preprocessed (e # r)"
      using strip_token [OF assms(1)] dash by (simp add: preprocessed_def strip_Nil)
    then show ?thesis
      using dash by simp
  qed
qed

lemma spaced_Cons: "y \<noteq> [] \<Longrightarrow> \<exists>w. spaced cls (y # ys) = hd y # w"
  by (cases y; cases ys) auto

lemma preprocessed_spaced:
  "\<forall>c. cls c \<longrightarrow> split_punct c \<Longrightarrow> \<forall>t\<in>set ts. token t \<Longrightarrow>
     preprocessed (spaced cls ts) = ts"
proof (induction cls ts rule: spaced.induct)
  case (1 cls)
  show ?case by (simp add: preprocessed_def strip_Nil)
next
  case (2 cls x)
  then show ?case by (simp add: preprocessed_token_alone)
next
  case (3 cls x y ys)
  have x: "token x" and y: "token y"
    using "3.prems" by simp_all
  obtain d ds where yd: "y = d # ds"
    using y by (cases y) (auto simp add: token_def)
  obtain w where w: "spaced cls (y # ys) = d # w"
    using spaced_Cons [of y cls ys] yd by auto
  have ih: "preprocessed (d # w) = y # ys"
    using 3 w by simp
  show ?case
  proof (cases "cls d")
    case True
    then have "split_punct d"
      using "3.prems"(1) by simp
    then have "preprocessed (x @ d # w) = x # preprocessed (d # w)"
      using x by (intro preprocessed_token_then) simp_all
    then show ?thesis
      using True yd w ih by simp
  next
    case False
    have "preprocessed (x @ 0x20 # d # w) = x # preprocessed (0x20 # d # w)"
      using x space_literal(2) by (intro preprocessed_token_then) simp_all
    also have "preprocessed (0x20 # d # w) = preprocessed (d # w)"
      using space_literal(2) by (rule preprocessed_space)
    finally show ?thesis
      using False yd w ih by simp
  qed
qed

lemma join_punct_split: "join_punct_V1 c \<Longrightarrow> split_punct c" "join_punct_V2 c \<Longrightarrow> split_punct c"
  by (auto simp add: join_punct_V1_def join_punct_V2_def split_punct_def str_def)

lemma getitems_map_the:
  "\<forall>k\<in>set ks. \<exists>v. map_of d k = Some v \<and> f v = k \<Longrightarrow>
     map f (map (\<lambda>k. the (map_of d k)) ks) = ks"
  by (induction ks) auto

text \<open>
  C10. With the vocabulary the script builds, encoding the text that
  \<open>SimpleTokenizerV2.decode\<close> returns for IDs that are all keys of \<open>int_to_str\<close> gives
  those IDs back: every vocabulary symbol survives the join and the new split.
\<close>

theorem encode_after_decode_V2:
  "(\<forall>i\<in>set ids. map_of (int_to_str (init (vocab_V2 raw_text))) i \<noteq> None) \<longrightarrow>
     (\<exists>text. decode_V2 (init (vocab_V2 raw_text)) ids = Inr text \<and>
        encode_V2 (init (vocab_V2 raw_text)) text = Inr ids)"
proof
  let ?tok = "init (vocab_V2 raw_text)"
  let ?items = "map (\<lambda>i. the (map_of (int_to_str ?tok) i)) ids"
  assume a: "\<forall>i\<in>set ids. map_of (int_to_str ?tok) i \<noteq> None"
  have key: "map_of (vocab_V2 raw_text) (the (map_of (int_to_str ?tok) i)) = Some i"
    if mem: "i \<in> set ids" for i
  proof -
    obtain s where "map_of (int_to_str ?tok) i = Some s"
      using a mem by auto
    then show ?thesis
      using int_to_str_V2 [of raw_text i s] by simp
  qed
  have "\<forall>t\<in>set ?items. token t"
    using key vocab_V2_token by auto
  then have pre: "preprocessed (spaced join_punct_V2 ?items) = ?items"
    using join_punct_split(2) by (intro preprocessed_spaced) simp_all
  have dec: "decode_V2 ?tok ids = Inr (spaced join_punct_V2 ?items)"
    using a by (rule decode_V2_script)
  have "encode_V2 ?tok (spaced join_punct_V2 ?items) =
      Inr (map (\<lambda>s. case map_of (vocab_V2 raw_text) s of
                       None \<Rightarrow> int (length (all_words raw_text)) + 1 | Some i \<Rightarrow> i) ?items)"
    by (simp only: encode_V2_script pre)
  also have "map (\<lambda>s. case map_of (vocab_V2 raw_text) s of
                       None \<Rightarrow> int (length (all_words raw_text)) + 1 | Some i \<Rightarrow> i) ?items = ids"
    using key by (simp add: map_idI)
  finally show "\<exists>text. decode_V2 ?tok ids = Inr text \<and> encode_V2 ?tok text = Inr ids"
    using dec by simp
qed

theorem encode_after_decode_V2_witness:
  "list_all (\<lambda>i. map_of (int_to_str (init (vocab_V2 (str ''you, see.'')))) i \<noteq> None) [1, 3, 0, 2, 5] \<and>
   decode_V2 (init (vocab_V2 (str ''you, see.''))) [1, 3, 0, 2, 5] = Inr (str ''. you, see <|unk|>'') \<and>
   encode_V2 (init (vocab_V2 (str ''you, see.''))) (str ''. you, see <|unk|>'') = Inr [1, 3, 0, 2, 5]"
  using encode_after_decode_V2 [of "[1, 3, 0, 2, 5]" "str ''you, see.''"]
  by (simp add: ev)

lemma map_the_lookup:
  "\<forall>s\<in>set syms. \<exists>i. d s = Some i \<and> e i = Some s \<Longrightarrow>
     map (\<lambda>i. the (e i)) (map (\<lambda>s. the (d s)) syms) = syms"
  by (induction syms) auto

lemma round_trip_V1:
  assumes "\<forall>s\<in>set (preprocessed text). map_of (vocab_V1 raw_text) s \<noteq> None"
  shows "\<exists>ids. encode_V1 (init (vocab_V1 raw_text)) text = Inr ids \<and>
     decode_V1 (init (vocab_V1 raw_text)) ids = Inr (spaced join_punct_V1 (preprocessed text))"
proof -
  let ?tok = "init (vocab_V1 raw_text)"
  let ?ids = "map (\<lambda>s. the (map_of (vocab_V1 raw_text) s)) (preprocessed text)"
  have enc: "encode_V1 ?tok text = Inr ?ids"
    using getitems_present [OF assms] by (simp add: encode_V1_def str_to_int_init)
  have inv: "\<forall>s\<in>set (preprocessed text).
      \<exists>i. map_of (vocab_V1 raw_text) s = Some i \<and> map_of (int_to_str ?tok) i = Some s"
    using assms by (auto simp add: int_to_str_V1)
  then have "\<forall>i\<in>set ?ids. map_of (int_to_str ?tok) i \<noteq> None"
    by auto
  then have "decode_V1 ?tok ?ids =
      Inr (spaced join_punct_V1 (map (\<lambda>i. the (map_of (int_to_str ?tok) i)) ?ids))"
    by (rule decode_V1_script)
  also have "map (\<lambda>i. the (map_of (int_to_str ?tok) i)) ?ids = preprocessed text"
    using inv by (rule map_the_lookup)
  finally show ?thesis
    using enc by simp
qed

lemma round_trip_V2:
  assumes "\<forall>s\<in>set (preprocessed text). map_of (vocab_V2 raw_text) s \<noteq> None"
  shows "\<exists>ids. encode_V2 (init (vocab_V2 raw_text)) text = Inr ids \<and>
     decode_V2 (init (vocab_V2 raw_text)) ids = Inr (spaced join_punct_V2 (preprocessed text))"
proof -
  let ?tok = "init (vocab_V2 raw_text)"
  let ?ids = "map (\<lambda>s. the (map_of (vocab_V2 raw_text) s)) (preprocessed text)"
  have "map (\<lambda>s. case map_of (vocab_V2 raw_text) s of
                    None \<Rightarrow> int (length (all_words raw_text)) + 1 | Some i \<Rightarrow> i)
          (preprocessed text) = ?ids"
    using assms by auto
  then have enc: "encode_V2 ?tok text = Inr ?ids"
    by (simp only: encode_V2_script)
  have inv: "\<forall>s\<in>set (preprocessed text).
      \<exists>i. map_of (vocab_V2 raw_text) s = Some i \<and> map_of (int_to_str ?tok) i = Some s"
    using assms by (auto simp add: int_to_str_V2)
  then have "\<forall>i\<in>set ?ids. map_of (int_to_str ?tok) i \<noteq> None"
    by auto
  then have "decode_V2 ?tok ?ids =
      Inr (spaced join_punct_V2 (map (\<lambda>i. the (map_of (int_to_str ?tok) i)) ?ids))"
    by (rule decode_V2_script)
  also have "map (\<lambda>i. the (map_of (int_to_str ?tok) i)) ?ids = preprocessed text"
    using inv by (rule map_the_lookup)
  finally show ?thesis
    using enc by simp
qed

text \<open>
  C1 (as amended). For a text whose symbols are all in the vocabulary, decoding the
  encoded text gives the symbols of the text in order, with one blank before each but the
  first and none before a punctuation symbol of the decoder's class. That text has the
  symbols of the original, so it is the original exactly when the original is spaced
  that way.
\<close>

theorem round_trip_respaces:
  "((\<forall>s\<in>set (preprocessed text). map_of (vocab_V1 raw_text) s \<noteq> None) \<longrightarrow>
      (\<exists>ids. encode_V1 (init (vocab_V1 raw_text)) text = Inr ids \<and>
         decode_V1 (init (vocab_V1 raw_text)) ids =
           Inr (spaced join_punct_V1 (preprocessed text)))) \<and>
   ((\<forall>s\<in>set (preprocessed text). map_of (vocab_V2 raw_text) s \<noteq> None) \<longrightarrow>
      (\<exists>ids. encode_V2 (init (vocab_V2 raw_text)) text = Inr ids \<and>
         decode_V2 (init (vocab_V2 raw_text)) ids =
           Inr (spaced join_punct_V2 (preprocessed text)))) \<and>
   preprocessed (spaced join_punct_V1 (preprocessed text)) = preprocessed text \<and>
   preprocessed (spaced join_punct_V2 (preprocessed text)) = preprocessed text"
proof -
  have tokens: "\<forall>t\<in>set (preprocessed text). token t"
    using preprocessed_token by blast
  have "preprocessed (spaced join_punct_V1 (preprocessed text)) = preprocessed text"
    using join_punct_split(1) tokens by (intro preprocessed_spaced) simp_all
  moreover have "preprocessed (spaced join_punct_V2 (preprocessed text)) = preprocessed text"
    using join_punct_split(2) tokens by (intro preprocessed_spaced) simp_all
  ultimately show ?thesis
    using round_trip_V1 [of "text" raw_text] round_trip_V2 [of "text" raw_text] by blast
qed

theorem round_trip_respaces_witness:
  "list_all (\<lambda>s. map_of (vocab_V2 (str ''He said: (no).'')) s \<noteq> None)
     (preprocessed (str ''(He  said):no . '')) \<and>
   encode_V2 (init (vocab_V2 (str ''He said: (no).''))) (str ''(He  said):no . '') =
     Inr [0, 4, 6, 1, 3, 5, 2] \<and>
   decode_V2 (init (vocab_V2 (str ''He said: (no).''))) [0, 4, 6, 1, 3, 5, 2] =
     Inr (str ''( He said): no.'') \<and>
   spaced join_punct_V2 (preprocessed (str ''(He  said):no . '')) = str ''( He said): no.''"
  using round_trip_respaces [of "str ''(He  said):no . ''" "str ''He said: (no).''"]
  by (simp add: ev)

text \<open>
  The text \<open>(a)\<close>, all of whose symbols are in the vocabulary, comes back as \<open>( a)\<close>.
\<close>

theorem round_trip_counterexample:
  "list_all (\<lambda>s. map_of (vocab_V2 (str ''(a)'')) s \<noteq> None) (preprocessed (str ''(a)'')) \<and>
   encode_V2 (init (vocab_V2 (str ''(a)''))) (str ''(a)'') = Inr [0, 2, 1] \<and>
   decode_V2 (init (vocab_V2 (str ''(a)''))) [0, 2, 1] = Inr (str ''( a)'') \<and>
   encode_V1 (init (vocab_V1 (str ''(a)''))) (str ''(a)'') = Inr [0, 2, 1] \<and>
   decode_V1 (init (vocab_V1 (str ''(a)''))) [0, 2, 1] = Inr (str ''( a)'') \<and>
   str ''( a)'' \<noteq> str ''(a)''"
  by (simp add: ev)

section \<open>Termination of the byte-pair trainer\<close>

lemma fold_preferred:
  "fold (\<lambda>q best. if preferred corpus q best then q else best) ps p \<in> set (p # ps) \<and>
   (\<forall>q\<in>set (p # ps).
      frequency corpus q \<le>
        frequency corpus (fold (\<lambda>q best. if preferred corpus q best then q else best) ps p))"
proof (induction ps arbitrary: p)
  case Nil
  show ?case by simp
next
  case (Cons q ps)
  let ?b = "if preferred corpus q p then q else p"
  have step: "frequency corpus p \<le> frequency corpus ?b \<and> frequency corpus q \<le> frequency corpus ?b"
    by (auto simp add: preferred_def)
  have "?b = p \<or> ?b = q"
    by simp
  then show ?case
    using Cons.IH [of ?b] step by (auto intro: order_trans)
qed

lemma frequency_absent: "p \<notin> set (all_pairs corpus) \<Longrightarrow> frequency corpus p = 0"
  by (simp add: frequency_def)

lemma select_pair_None: "select_pair corpus = None \<Longrightarrow> frequency corpus q = 0"
proof -
  assume "select_pair corpus = None"
  then have "remdups (all_pairs corpus) = []"
    by (simp add: select_pair_def split: list.splits)
  then have "all_pairs corpus = []"
    by simp
  then show ?thesis
    by (simp add: frequency_def)
qed

lemma select_pair_Some:
  assumes "select_pair corpus = Some p"
  shows "frequency corpus q \<le> frequency corpus p"
proof -
  obtain r rs where rs: "remdups (all_pairs corpus) = r # rs"
    and p: "p = fold (\<lambda>q best. if preferred corpus q best then q else best) rs r"
    using assms by (auto simp add: select_pair_def split: list.splits)
  show ?thesis
  proof (cases "q \<in> set (all_pairs corpus)")
    case True
    then have "q \<in> set (r # rs)"
      using rs set_remdups [of "all_pairs corpus"] by simp
    then show ?thesis
      using fold_preferred [of corpus rs r] p by blast
  next
    case False
    then show ?thesis
      by (simp add: frequency_absent)
  qed
qed

lemma length_merge_pair: "length (merge_pair p s) \<le> length s"
  by (induction p s rule: merge_pair.induct) auto

lemma corpus_size_merge: "corpus_size (map (merge_pair p) corpus) \<le> corpus_size corpus"
  using length_merge_pair by (simp add: corpus_size_def sum_list_mono)

lemma length_merge_pair_less: "p \<in> set (pairs_of s) \<Longrightarrow> length (merge_pair p s) < length s"
proof (induction p s rule: merge_pair.induct)
  case (1 a b x y s)
  show ?case
  proof (cases "x = a \<and> y = b")
    case True
    then show ?thesis
      using length_merge_pair [of "(a, b)" s] by simp
  next
    case False
    then have "(a, b) \<in> set (pairs_of (y # s))"
      using "1.prems" by (auto simp add: pairs_of_def)
    then have "length (merge_pair (a, b) (y # s)) < length (y # s)"
      using "1.IH"(2) False by blast
    then show ?thesis
      using False by auto
  qed
qed (simp_all add: pairs_of_def)

lemma corpus_size_merge_less:
  "p \<in> set (all_pairs corpus) \<Longrightarrow> corpus_size (map (merge_pair p) corpus) < corpus_size corpus"
proof (induction corpus)
  case Nil
  then show ?case by (simp add: all_pairs_def)
next
  case (Cons s corpus)
  show ?case
  proof (cases "p \<in> set (pairs_of s)")
    case True
    then show ?thesis
      using length_merge_pair_less [of p s] corpus_size_merge [of p corpus]
      by (simp add: corpus_size_def)
  next
    case False
    then have "p \<in> set (all_pairs corpus)"
      using Cons.prems by (simp add: all_pairs_def)
    then show ?thesis
      using Cons.IH length_merge_pair [of p s] by (simp add: corpus_size_def)
  qed
qed

lemma train_loop_stop:
  "target \<le> length vocab \<or> (\<forall>p. frequency corpus p < 2) \<Longrightarrow>
     train_loop target vocab merges corpus = (vocab, merges, corpus)"
  by (subst train_loop.simps) (auto split: option.splits)

lemma train_loop_step:
  "\<not> target \<le> length vocab \<Longrightarrow> select_pair corpus = Some p \<Longrightarrow> \<not> frequency corpus p < 2 \<Longrightarrow>
     train_loop target vocab merges corpus =
       train_loop target (intern (fst p @ snd p) vocab) (merges @ [p]) (map (merge_pair p) corpus)"
  by (subst train_loop.simps) simp

lemma train_loop_result:
  "train_loop target vocab merges corpus = (vocab', merges', corpus') \<Longrightarrow>
     (target \<le> length vocab' \<or> (\<forall>p. frequency corpus' p < 2)) \<and>
     length merges' + corpus_size corpus' \<le> length merges + corpus_size corpus"
proof (induction target vocab merges corpus rule: train_loop.induct)
  case (1 target vocab merges corpus)
  show ?case
  proof (cases "target \<le> length vocab \<or> (\<forall>p. frequency corpus p < 2)")
    case True
    then have "train_loop target vocab merges corpus = (vocab, merges, corpus)"
      by (rule train_loop_stop)
    then show ?thesis
      using "1.prems" True by auto
  next
    case False
    then obtain q where q: "\<not> frequency corpus q < 2"
      by auto
    have "select_pair corpus \<noteq> None"
    proof
      assume "select_pair corpus = None"
      then have "frequency corpus q = 0"
        by (rule select_pair_None)
      then show False
        using q by simp
    qed
    then obtain p where p: "select_pair corpus = Some p"
      by (cases "select_pair corpus") simp_all
    have often: "\<not> frequency corpus p < 2"
      using select_pair_Some [OF p, of q] q by simp
    have small: "\<not> target \<le> length vocab"
      using False by simp
    have "train_loop target (intern (fst p @ snd p) vocab) (merges @ [p]) (map (merge_pair p) corpus)
        = (vocab', merges', corpus')"
      using train_loop_step [OF small p often] "1.prems" by simp
    then have ih: "(target \<le> length vocab' \<or> (\<forall>p. frequency corpus' p < 2)) \<and>
        length merges' + corpus_size corpus' \<le>
          length (merges @ [p]) + corpus_size (map (merge_pair p) corpus)"
      using "1.IH" [OF small p often] by simp
    have "p \<in> set (all_pairs corpus)"
      using often by (cases "p \<in> set (all_pairs corpus)") (simp_all add: frequency_def)
    then have "corpus_size (map (merge_pair p) corpus) < corpus_size corpus"
      by (rule corpus_size_merge_less)
    then show ?thesis
      using ih by simp
  qed
qed

text \<open>
  C8. For every corpus and every target size the trainer returns: its loop is a total
  function. It returns at once when the target size is reached or no pair has frequency
  at least 2, the state it returns satisfies one of the two, and the merges it performs
  are at most the symbols of the corpus.
\<close>

theorem bpe_training_bounded:
  "(\<exists>vocab' merges' corpus'.
      train_loop target vocab merges corpus = (vocab', merges', corpus') \<and>
      (target \<le> length vocab' \<or> (\<forall>p. frequency corpus' p < 2)) \<and>
      length merges' + corpus_size corpus' \<le> length merges + corpus_size corpus) \<and>
   (target \<le> length vocab \<or> (\<forall>p. frequency corpus p < 2) \<longrightarrow>
      train_loop target vocab merges corpus = (vocab, merges, corpus)) \<and>
   (concat corpus = [] \<longrightarrow> train corpus target special_tokens = Inl EmptyCorpus) \<and>
   (concat corpus \<noteq> [] \<longrightarrow>
      (\<exists>vocabulary rules. train corpus target special_tokens = Inr (vocabulary, rules) \<and>
         length rules \<le> corpus_size corpus))"
proof -
  obtain v m c where r: "train_loop target vocab merges corpus = (v, m, c)"
    by (cases "train_loop target vocab merges corpus") auto
  have first: "\<exists>vocab' merges' corpus'.
      train_loop target vocab merges corpus = (vocab', merges', corpus') \<and>
      (target \<le> length vocab' \<or> (\<forall>p. frequency corpus' p < 2)) \<and>
      length merges' + corpus_size corpus' \<le> length merges + corpus_size corpus"
    using train_loop_result [OF r] r by blast
  obtain v0 m0 c0 where
    r0: "train_loop target (sort (remdups (concat corpus))) [] corpus = (v0, m0, c0)"
    by (cases "train_loop target (sort (remdups (concat corpus))) [] corpus") auto
  have "length m0 \<le> corpus_size corpus"
    using train_loop_result [OF r0] by simp
  then have last: "concat corpus \<noteq> [] \<longrightarrow>
      (\<exists>vocabulary rules. train corpus target special_tokens = Inr (vocabulary, rules) \<and>
         length rules \<le> corpus_size corpus)"
    using r0 by (simp add: train_def)
  have "concat corpus = [] \<longrightarrow> train corpus target special_tokens = Inl EmptyCorpus"
    by (simp add: train_def)
  then show ?thesis
    using first last train_loop_stop [of target vocab corpus merges] by blast
qed

lemmas ev_train = pairs_of_def all_pairs_def frequency_def preferred_def select_pair_def
  intern_def corpus_size_def train_def train_loop.simps

text \<open>Two words of the specification's scenario: two merges, then no pair occurs twice.\<close>

theorem bpe_training_bounded_witness:
  "concat [[str ''l'', str ''o'', str ''w''], [str ''l'', str ''o'', str ''w'', str ''e'', str ''r'']] \<noteq> [] \<and>
   train [[str ''l'', str ''o'', str ''w''], [str ''l'', str ''o'', str ''w'', str ''e'', str ''r'']]
       100 [endoftext] =
     Inr ([str ''e'', str ''l'', str ''o'', str ''r'', str ''w'', str ''lo'', str ''low'', endoftext],
          [(str ''l'', str ''o''), (str ''lo'', str ''w'')]) \<and>
   corpus_size [[str ''l'', str ''o'', str ''w''], [str ''l'', str ''o'', str ''w'', str ''e'', str ''r'']] = 8"
  using bpe_training_bounded
    [of 100 "[]" "[]" "[[str ''l'', str ''o'', str ''w''], [str ''l'', str ''o'', str ''w'', str ''e'', str ''r'']]"
      "[endoftext]"]
  by (simp add: ev_train str_def)

end
